theory Spec2Isabelle
  imports Complex_Main "HOL-Library.Multiset"
begin

section \<open>Data model of \<open>yds.py\<close>\<close>

text \<open>
  The three classes of the module become records.  Times, workloads and speeds are the
  reals of the source, taken in exact rational arithmetic (type \<open>rat\<close>), so a Python
  \<open>float(x)\<close> is the identity.  The task identifier \<open>nr\<close> is opaque and stays a type
  parameter.  A task object is represented by its fields: the list handed to
  \<open>calc_scheduling\<close> is a list of separate objects.
\<close>

record 'id task =
  t_nr :: 'id
  t_release :: rat
  t_dead :: rat
  t_c :: rat
  t_offset :: rat

record 'id interval =
  i_start :: rat
  i_end :: rat
  i_tasks :: "'id task list"
  i_intensity :: rat

record 'id execution =
  e_nr :: 'id
  e_start :: rat
  e_end :: rat
  e_frequency :: rat

text \<open>
  Every way the module can raise: the explicit \<open>Exception\<close> at the end of \<open>Task.cut\<close>,
  a float division by zero, \<open>max\<close> of an empty list, and \<open>list.remove\<close> of an absent
  element.
\<close>

datatype error =
  Uncatched
  | ZeroDivisionError
  | MaxEmptyError
  | RemoveError

text \<open>\<open>Task.__init__\<close>: the four arguments are stored as given, the offset starts at 0.\<close>

definition Task :: "'id \<Rightarrow> rat \<Rightarrow> rat \<Rightarrow> rat \<Rightarrow> 'id task" where
  "Task nr release dead c =
     \<lparr>t_nr = nr, t_release = release, t_dead = dead, t_c = c, t_offset = 0\<rparr>"

section \<open>\<open>Task.cut\<close>\<close>

text \<open>
  The five tests in the order of the source, each returning the updated task; falling
  through all of them is the raise.
\<close>

definition cut :: "'id task \<Rightarrow> rat \<Rightarrow> rat \<Rightarrow> error + 'id task" where
  "cut self start end =
     (let distance = end - start in
      if t_release self \<ge> end then
        Inr (self\<lparr>t_dead := t_dead self - distance,
                  t_release := t_release self - distance,
                  t_offset := t_offset self + distance\<rparr>)
      else if t_dead self \<le> start then
        Inr self
      else if t_release self < start \<and> t_dead self > end then
        Inr (self\<lparr>t_dead := t_dead self - distance\<rparr>)
      else if t_dead self > start \<and> t_release self < start then
        Inr (self\<lparr>t_dead := start\<rparr>)
      else if t_release self < end \<and> t_dead self > end then
        Inr (self\<lparr>t_offset := t_offset self + distance,
                  t_release := start,
                  t_dead := t_dead self - distance\<rparr>)
      else Inl Uncatched)"

text \<open>
  The cutting table of the specification, row by row, as a second definition to compare
  \<open>cut\<close> with: the relation of the task's window to \<open>[cstart, cend)\<close> and the action
  of each row.
\<close>

datatype relation = After | Before | Inside | OverlapStart | OverlapEnd

fun spec_relation :: "relation \<Rightarrow> 'id task \<Rightarrow> rat \<Rightarrow> rat \<Rightarrow> bool" where
  "spec_relation After t cstart cend = (t_release t \<ge> cend)"
| "spec_relation Before t cstart cend = (t_dead t \<le> cstart)"
| "spec_relation Inside t cstart cend = (t_release t < cstart \<and> t_dead t > cend)"
| "spec_relation OverlapStart t cstart cend =
     (t_dead t > cstart \<and> t_release t < cstart \<and> \<not> t_dead t > cend)"
| "spec_relation OverlapEnd t cstart cend =
     (t_release t < cend \<and> t_dead t > cend \<and> \<not> t_release t < cstart)"

fun spec_action :: "relation \<Rightarrow> 'id task \<Rightarrow> rat \<Rightarrow> rat \<Rightarrow> 'id task" where
  "spec_action After t cstart cend =
     t\<lparr>t_release := t_release t - (cend - cstart),
       t_dead := t_dead t - (cend - cstart),
       t_offset := t_offset t + (cend - cstart)\<rparr>"
| "spec_action Before t cstart cend = t"
| "spec_action Inside t cstart cend = t\<lparr>t_dead := t_dead t - (cend - cstart)\<rparr>"
| "spec_action OverlapStart t cstart cend = t\<lparr>t_dead := cstart\<rparr>"
| "spec_action OverlapEnd t cstart cend =
     t\<lparr>t_offset := t_offset t + (cend - cstart),
       t_release := cstart,
       t_dead := t_dead t - (cend - cstart)\<rparr>"

text \<open>A task is contained in \<open>[start, end)\<close> as \<open>get_intervals\<close> tests it.\<close>

definition contained :: "rat \<Rightarrow> rat \<Rightarrow> 'id task \<Rightarrow> bool" where
  "contained start end task \<longleftrightarrow> t_release task \<ge> start \<and> t_dead task \<le> end"

section \<open>Intervals\<close>

text \<open>
  \<open>Interval.__init__\<close> sums the workloads of the tasks it is given, starting from 0.0,
  and divides by the length of the window; the division raises on a window of length 0.
\<close>

definition Interval :: "rat \<Rightarrow> rat \<Rightarrow> 'id task list \<Rightarrow> error + 'id interval" where
  "Interval start end tasks =
     (let tmp = foldl (\<lambda>tmp task. tmp + t_c task) 0 tasks in
      if end - start = 0 then Inl ZeroDivisionError
      else Inr \<lparr>i_start = start, i_end = end, i_tasks = tasks,
                i_intensity = tmp / (end - start)\<rparr>)"

text \<open>
  \<open>get_intervals\<close> iterates over two Python sets.  The order in which a set yields its
  elements is fixed by the interpreter, not by the program, so it is a parameter here:
  \<open>set_iter xs\<close> is the sequence in which the set built from the list \<open>xs\<close> is
  iterated.  All that is known of it is \<open>set_iteration\<close>: it yields each element of
  \<open>xs\<close> once.
\<close>

definition set_iteration :: "(rat list \<Rightarrow> rat list) \<Rightarrow> bool" where
  "set_iteration set_iter \<longleftrightarrow>
     (\<forall>xs. set (set_iter xs) = set xs \<and> distinct (set_iter xs))"

text \<open>The inner loop \<open>for end in deads\<close>, appending to \<open>intervals\<close>.\<close>

fun intervals_ends ::
  "rat \<Rightarrow> rat list \<Rightarrow> 'id task list \<Rightarrow> 'id interval list \<Rightarrow> error + 'id interval list" where
  "intervals_ends start [] tasks intervals = Inr intervals"
| "intervals_ends start (end # deads) tasks intervals =
     (if start < end then
        (case Interval start end
                [task \<leftarrow> tasks. t_release task \<ge> start \<and> t_dead task \<le> end] of
           Inl err \<Rightarrow> Inl err
         | Inr i \<Rightarrow> intervals_ends start deads tasks (intervals @ [i]))
      else intervals_ends start deads tasks intervals)"

text \<open>The outer loop \<open>for start in releases\<close>.\<close>

fun intervals_starts ::
  "rat list \<Rightarrow> rat list \<Rightarrow> 'id task list \<Rightarrow> 'id interval list \<Rightarrow> error + 'id interval list" where
  "intervals_starts [] deads tasks intervals = Inr intervals"
| "intervals_starts (start # releases) deads tasks intervals =
     (case intervals_ends start deads tasks intervals of
        Inl err \<Rightarrow> Inl err
      | Inr intervals' \<Rightarrow> intervals_starts releases deads tasks intervals')"

definition get_intervals ::
  "(rat list \<Rightarrow> rat list) \<Rightarrow> 'id task list \<Rightarrow> error + 'id interval list" where
  "get_intervals set_iter tasks =
     (let releases = set_iter (map t_release tasks);
          deads = set_iter (map t_dead tasks)
      in intervals_starts releases deads tasks [])"

text \<open>
  Python's \<open>max\<close> with a key raises on an empty list and otherwise keeps the first
  element whose key no later element exceeds.
\<close>

fun max_intensity_interval :: "'id interval list \<Rightarrow> error + 'id interval" where
  "max_intensity_interval [] = Inl MaxEmptyError"
| "max_intensity_interval (i # intervals) =
     Inr (foldl (\<lambda>best x. if i_intensity x > i_intensity best then x else best)
            i intervals)"

section \<open>\<open>calc_scheduling\<close>\<close>

text \<open>
  The loop \<open>for task in to_execute\<close>: the state is the running \<open>offset\<close>, the
  \<open>scheduling\<close> list and the \<open>tasks\<close> list.  The division by \<open>c_sum\<close> and
  \<open>tasks.remove\<close> can raise.  The class defines no equality, so \<open>remove\<close> looks for
  the object itself; here \<open>remove1\<close> takes out the first task with the same fields.
  The two agree on the list left when the loop ends, since the loop removes every task
  of \<open>to_execute\<close>, and a task with the fields of a contained task is contained too
  (\<open>execute_tasks_ok\<close> below).
\<close>

fun execute_tasks ::
  "'id task list \<Rightarrow> rat \<Rightarrow> rat \<Rightarrow> rat \<Rightarrow> rat \<Rightarrow> 'id execution list \<Rightarrow> 'id task list
     \<Rightarrow> error + ('id execution list \<times> 'id task list)" where
  "execute_tasks [] c_sum int_length intensity offset scheduling tasks =
     Inr (scheduling, tasks)"
| "execute_tasks (task # to_execute) c_sum int_length intensity offset scheduling tasks =
     (if c_sum = 0 then Inl ZeroDivisionError
      else
        let task_length = (t_c task / c_sum) * int_length;
            scheduling' = scheduling @
              [\<lparr>e_nr = t_nr task, e_start = offset + t_offset task,
                e_end = offset + t_offset task + task_length,
                e_frequency = intensity\<rparr>]
        in if task \<in> set tasks
           then execute_tasks to_execute c_sum int_length intensity
                  (offset + task_length) scheduling' (remove1 task tasks)
           else Inl RemoveError)"

text \<open>The comprehension \<open>[task.cut(start, end) for task in tasks]\<close>.\<close>

fun cut_all :: "'id task list \<Rightarrow> rat \<Rightarrow> rat \<Rightarrow> error + 'id task list" where
  "cut_all [] start end = Inr []"
| "cut_all (task # tasks) start end =
     (case cut task start end of
        Inl err \<Rightarrow> Inl err
      | Inr task' \<Rightarrow>
          (case cut_all tasks start end of
             Inl err \<Rightarrow> Inl err
           | Inr tasks' \<Rightarrow> Inr (task' # tasks')))"

text \<open>
  One pass through the body of the \<open>while\<close> loop.  Python's \<open>sorted\<close> is stable, and
  so is \<open>sort_key\<close>.
\<close>

definition calc_step ::
  "(rat list \<Rightarrow> rat list) \<Rightarrow> 'id task list \<Rightarrow> 'id execution list
     \<Rightarrow> error + ('id task list \<times> 'id execution list)" where
  "calc_step set_iter tasks scheduling =
     (case get_intervals set_iter tasks of
        Inl err \<Rightarrow> Inl err
      | Inr intervals \<Rightarrow>
     (case max_intensity_interval intervals of
        Inl err \<Rightarrow> Inl err
      | Inr max_int \<Rightarrow>
          let to_execute = sort_key t_dead (i_tasks max_int);
              int_length = i_end max_int - i_start max_int;
              offset = i_start max_int;
              c_sum = sum_list (map t_c to_execute)
          in (case execute_tasks to_execute c_sum int_length (i_intensity max_int)
                     offset scheduling tasks of
                Inl err \<Rightarrow> Inl err
              | Inr (scheduling', tasks') \<Rightarrow>
                  (case cut_all tasks' (i_start max_int) (i_end max_int) of
                     Inl err \<Rightarrow> Inl err
                   | Inr tasks'' \<Rightarrow> Inr (tasks'', scheduling')))))"

text \<open>
  The \<open>while\<close> loop and the final sort.  Nothing in the text of the loop bounds the
  number of passes, so the result is an option: \<open>None\<close> is a run that never returns.
\<close>

partial_function (option) calc_loop ::
  "(rat list \<Rightarrow> rat list) \<Rightarrow> 'id task list \<Rightarrow> 'id execution list
     \<Rightarrow> (error + 'id execution list) option" where
  "calc_loop set_iter tasks scheduling =
     (if length tasks > 0 then
        (case calc_step set_iter tasks scheduling of
           Inl err \<Rightarrow> Some (Inl err)
         | Inr (tasks', scheduling') \<Rightarrow> calc_loop set_iter tasks' scheduling')
      else Some (Inr (sort_key e_start scheduling)))"

declare calc_loop.simps [code]

definition calc_scheduling ::
  "(rat list \<Rightarrow> rat list) \<Rightarrow> 'id task list \<Rightarrow> (error + 'id execution list) option" where
  "calc_scheduling set_iter tasks = calc_loop set_iter tasks []"

text \<open>A valid input: every task has \<open>release < dead\<close> and a positive workload.\<close>

definition valid_input :: "'id task list \<Rightarrow> bool" where
  "valid_input tasks \<longleftrightarrow> list_all (\<lambda>t. t_release t < t_dead t \<and> t_c t > 0) tasks"

text \<open>
  The interval \<open>get_intervals\<close> builds for a pair \<open>start < end\<close>, and the work an
  execution performs: its duration times its frequency.
\<close>

definition interval_of :: "'id task list \<Rightarrow> rat \<Rightarrow> rat \<Rightarrow> 'id interval" where
  "interval_of tasks start end =
     \<lparr>i_start = start, i_end = end, i_tasks = filter (contained start end) tasks,
      i_intensity = sum_list (map t_c (filter (contained start end) tasks)) / (end - start)\<rparr>"

definition e_work :: "'id execution \<Rightarrow> rat" where
  "e_work e = (e_end e - e_start e) * e_frequency e"

section \<open>Properties of \<open>Task.cut\<close>\<close>

lemma cut_fault_iff:
  "cut t s e = Inl Uncatched \<longleftrightarrow>
     t_release t < e \<and> t_dead t > s \<and> t_release t \<ge> s \<and> t_dead t \<le> e"
  by (auto simp: cut_def Let_def)

lemma cut_fault_iff_contained:
  "t_release t < t_dead t \<Longrightarrow> cut t s e = Inl Uncatched \<longleftrightarrow> contained s e t"
  by (auto simp: cut_fault_iff contained_def)

lemma cut_error_is_fault: "cut t s e = Inl err \<Longrightarrow> err = Uncatched"
  by (auto simp: cut_def Let_def split: if_splits)

lemma cut_keeps_window:
  assumes "t_release t < t_dead t" and "cut t s e = Inr t'"
  shows "t_release t' < t_dead t'"
  using assms by (auto simp: cut_def Let_def split: if_splits)

lemma cut_keeps_nr_c:
  assumes "cut t s e = Inr t'"
  shows "t_nr t' = t_nr t \<and> t_c t' = t_c t"
  using assms by (auto simp: cut_def Let_def split: if_splits)

text \<open>
  C9.  A task whose window is not empty (\<open>release < dead\<close>) still has a non-empty
  window after being cut by any interval \<open>[cstart, cend)\<close> with \<open>cstart < cend\<close>: the
  inequality stays strict in each of the five branches.  (When \<open>cut\<close> raises, the task
  has not been changed.)
\<close>

theorem cut_preserves_strict_window:
  assumes "t_release t < t_dead t" and "cstart < cend" and "cut t cstart cend = Inr t'"
  shows "t_release t' < t_dead t'"
  using assms(1,3) by (auto simp: cut_def Let_def split: if_splits)

theorem cut_preserves_strict_window_witness:
  "cut (Task ''C'' 0 20 4) 5 10 = Inr ((Task ''C'' 0 20 4)\<lparr>t_dead := 15\<rparr>) \<and>
   t_release ((Task ''C'' 0 20 4)\<lparr>t_dead := 15\<rparr>) < t_dead ((Task ''C'' 0 20 4)\<lparr>t_dead := 15\<rparr>)"
proof -
  have w: "t_release (Task ''C'' 0 20 4) < t_dead (Task ''C'' 0 20 4)"
    by (simp add: Task_def)
  have i: "(5::rat) < 10" by simp
  have c: "cut (Task ''C'' 0 20 4) 5 10 = Inr ((Task ''C'' 0 20 4)\<lparr>t_dead := 15\<rparr>)"
    by (simp add: cut_def Task_def)
  show ?thesis using c cut_preserves_strict_window [OF w i c] by (rule conjI)
qed

text \<open>
  C4, as the claim states it, fails: a task contained in the interval matches none of
  the five rows of the table, and \<open>cut\<close> raises instead of updating it.
\<close>

theorem cut_contained_counterexample:
  "(2::rat) < 5 \<and>
   \<not> spec_relation After (Task ''A'' 3 4 1) 2 5 \<and>
   \<not> spec_relation Before (Task ''A'' 3 4 1) 2 5 \<and>
   \<not> spec_relation Inside (Task ''A'' 3 4 1) 2 5 \<and>
   \<not> spec_relation OverlapStart (Task ''A'' 3 4 1) 2 5 \<and>
   \<not> spec_relation OverlapEnd (Task ''A'' 3 4 1) 2 5 \<and>
   cut (Task ''A'' 3 4 1) 2 5 = Inl Uncatched"
  by (simp add: cut_def Task_def)

text \<open>
  C4, amended.  For every interval \<open>[cstart, cend)\<close> with \<open>cstart < cend\<close> and every task
  not contained in it, exactly one row of the cutting table applies and \<open>cut\<close> returns
  the task updated as that row says; in particular a task overlapping the end of the
  interval gets \<open>release = cstart\<close>, its deadline decreased and its offset increased by
  \<open>cend - cstart\<close>, the identifier and the workload unchanged.
\<close>

theorem cut_refines_table:
  assumes "cstart < cend" and "\<not> contained cstart cend t"
  shows "(\<exists>!r. spec_relation r t cstart cend) \<and>
         (\<forall>r. spec_relation r t cstart cend \<longrightarrow>
               cut t cstart cend = Inr (spec_action r t cstart cend)) \<and>
         (spec_relation OverlapEnd t cstart cend \<longrightarrow>
            cut t cstart cend =
              Inr \<lparr>t_nr = t_nr t, t_release = cstart,
                   t_dead = t_dead t - (cend - cstart), t_c = t_c t,
                   t_offset = t_offset t + (cend - cstart)\<rparr>)"
proof -
  have some: "spec_relation After t cstart cend \<or> spec_relation Before t cstart cend \<or>
      spec_relation Inside t cstart cend \<or> spec_relation OverlapStart t cstart cend \<or>
      spec_relation OverlapEnd t cstart cend"
    using assms by (auto simp: contained_def)
  have one: "r = r'"
    if "spec_relation r t cstart cend" and "spec_relation r' t cstart cend" for r r'
    using that assms by (cases r; cases r') (auto simp: contained_def)
  have act: "cut t cstart cend = Inr (spec_action r t cstart cend)"
    if "spec_relation r t cstart cend" for r
    using that assms by (cases r) (auto simp: cut_def Let_def contained_def)
  have "\<exists>!r. spec_relation r t cstart cend" using some one by blast
  moreover have "cut t cstart cend =
      Inr \<lparr>t_nr = t_nr t, t_release = cstart, t_dead = t_dead t - (cend - cstart),
           t_c = t_c t, t_offset = t_offset t + (cend - cstart)\<rparr>"
    if "spec_relation OverlapEnd t cstart cend"
    using act [OF that] by simp
  ultimately show ?thesis using act by blast
qed

theorem cut_refines_table_witness:
  "(5::rat) < 10 \<and> \<not> contained 5 10 (Task ''C'' 7 20 4) \<and>
   spec_relation OverlapEnd (Task ''C'' 7 20 4) 5 10 \<and>
   cut (Task ''C'' 7 20 4) 5 10 =
     Inr \<lparr>t_nr = ''C'', t_release = 5, t_dead = 15, t_c = 4, t_offset = 5\<rparr>"
proof -
  have i: "(5::rat) < 10" by simp
  have n: "\<not> contained 5 10 (Task ''C'' 7 20 4)" by (simp add: contained_def Task_def)
  have r: "spec_relation OverlapEnd (Task ''C'' 7 20 4) 5 10" by (simp add: Task_def)
  have "cut (Task ''C'' 7 20 4) 5 10 =
      Inr \<lparr>t_nr = t_nr (Task ''C'' 7 20 4), t_release = 5,
           t_dead = t_dead (Task ''C'' 7 20 4) - (10 - 5), t_c = t_c (Task ''C'' 7 20 4),
           t_offset = t_offset (Task ''C'' 7 20 4) + (10 - 5)\<rparr>"
    using cut_refines_table [OF i n] r by blast
  then show ?thesis using i n r by (simp add: Task_def)
qed

section \<open>Candidate intervals and their maximum\<close>

lemma foldl_workload: "foldl (\<lambda>tmp task. tmp + t_c task) a ts = a + sum_list (map t_c ts)"
  by (induction ts arbitrary: a) simp_all

lemma Interval_eq:
  "s < e \<Longrightarrow> Interval s e [task \<leftarrow> tasks. t_release task \<ge> s \<and> t_dead task \<le> e]
     = Inr (interval_of tasks s e)"
  by (simp add: Interval_def interval_of_def foldl_workload contained_def [abs_def] Let_def)

lemma intervals_ends_eq:
  "intervals_ends s ds tasks acc = Inr (acc @ map (interval_of tasks s) (filter (\<lambda>e. s < e) ds))"
  by (induction ds arbitrary: acc) (simp_all add: Interval_eq)

lemma intervals_starts_eq:
  "intervals_starts ss ds tasks acc =
     Inr (acc @ concat (map (\<lambda>s. map (interval_of tasks s) (filter (\<lambda>e. s < e) ds)) ss))"
  by (induction ss arbitrary: acc) (simp_all add: intervals_ends_eq)

lemma get_intervals_eq:
  "get_intervals so tasks =
     Inr (concat (map (\<lambda>s. map (interval_of tasks s) (filter (\<lambda>e. s < e) (so (map t_dead tasks))))
                  (so (map t_release tasks))))"
  by (simp add: get_intervals_def intervals_starts_eq)

lemma get_intervals_shape:
  assumes "get_intervals so tasks = Inr ivs" and "iv \<in> set ivs"
  shows "\<exists>s e. s < e \<and> iv = interval_of tasks s e"
  using assms unfolding get_intervals_eq by fastforce

lemma get_intervals_trivial:
  assumes "set_iteration so" and "t \<in> set tasks" and "u \<in> set tasks" and "t_release t < t_dead u"
  shows "\<exists>ivs. get_intervals so tasks = Inr ivs \<and> interval_of tasks (t_release t) (t_dead u) \<in> set ivs"
proof -
  have r: "t_release t \<in> set (so (map t_release tasks))"
    and d: "t_dead u \<in> set (so (map t_dead tasks))"
    using assms by (simp_all add: set_iteration_def)
  show ?thesis unfolding get_intervals_eq using r d assms(4) by auto
qed

lemma foldl_max_mem:
  "foldl (\<lambda>best x. if i_intensity x > i_intensity best then x else best) i is \<in> set (i # is)"
  by (induction "is" arbitrary: i) auto

lemma foldl_max_ge:
  "i_intensity i \<le> i_intensity (foldl (\<lambda>best x. if i_intensity x > i_intensity best then x else best) i is)"
proof (induction "is" arbitrary: i)
  case Nil show ?case by simp
next
  case (Cons a "is")
  show ?case using Cons[of a] Cons[of i] by auto
qed

lemma foldl_max_all:
  "\<forall>x\<in>set (i # is). i_intensity x \<le> i_intensity (foldl (\<lambda>best x. if i_intensity x > i_intensity best then x else best) i is)"
proof (induction "is" arbitrary: i)
  case Nil show ?case by simp
next
  case (Cons a "is")
  show ?case using Cons[of a] Cons[of i] foldl_max_ge[of a "is"] foldl_max_ge[of i "is"] by auto
qed

lemma max_intensity_interval_ok:
  assumes "ivs \<noteq> []"
  shows "\<exists>mi. max_intensity_interval ivs = Inr mi \<and> mi \<in> set ivs \<and> (\<forall>x\<in>set ivs. i_intensity x \<le> i_intensity mi)"
proof (cases ivs)
  case Nil with assms show ?thesis by simp
next
  case (Cons i "is")
  show ?thesis unfolding Cons using foldl_max_mem[of i "is"] foldl_max_all[of i "is"] by simp
qed

section \<open>One pass of the loop\<close>

lemma filter_remove1_other: "\<not> Q t \<Longrightarrow> filter Q (remove1 t xs) = filter Q xs"
  by (induction xs) auto

lemma mset_filter_remove1: "P t \<Longrightarrow> mset (filter P (remove1 t xs)) = mset (filter P xs) - {#t#}"
  by (simp add: mset_filter)

lemma execute_tasks_ok:
  assumes "c_sum \<noteq> 0" and "mset todo = mset (filter P tasks)"
  shows "\<exists>execs. execute_tasks todo c_sum L I off sched tasks
                    = Inr (sched @ execs, filter (\<lambda>t. \<not> P t) tasks)
               \<and> map (\<lambda>e. (e_nr e, e_work e)) execs
                    = map (\<lambda>t. (t_nr t, t_c t / c_sum * L * I)) todo"
  using assms(2)
proof (induction todo arbitrary: off sched tasks)
  case Nil
  then have "filter P tasks = []" by simp
  then have "filter (\<lambda>t. \<not> P t) tasks = tasks" by (simp add: filter_empty_conv)
  then show ?case by simp
next
  case (Cons t rest)
  have "t \<in># mset (filter P tasks)" using Cons.prems by (metis list.set_intros(1) set_mset_mset)
  then have mem: "t \<in> set tasks" and Pt: "P t" by simp_all
  have "mset rest = mset (filter P tasks) - {#t#}" using Cons.prems by (metis add_mset_remove_trivial mset.simps(2))
  then have rest: "mset rest = mset (filter P (remove1 t tasks))" using Pt by (simp add: mset_filter_remove1)
  define ex where "ex = \<lparr>e_nr = t_nr t, e_start = off + t_offset t,
      e_end = off + t_offset t + t_c t / c_sum * L, e_frequency = I\<rparr>"
  from Cons.IH [OF rest, of "off + t_c t / c_sum * L" "sched @ [ex]"]
  obtain execs where
    run: "execute_tasks rest c_sum L I (off + t_c t / c_sum * L) (sched @ [ex]) (remove1 t tasks)
            = Inr ((sched @ [ex]) @ execs, filter (\<lambda>t. \<not> P t) (remove1 t tasks))"
    and works: "map (\<lambda>e. (e_nr e, e_work e)) execs = map (\<lambda>t. (t_nr t, t_c t / c_sum * L * I)) rest"
    by blast
  have same: "filter (\<lambda>t. \<not> P t) (remove1 t tasks) = filter (\<lambda>t. \<not> P t) tasks"
    using Pt by (simp add: filter_remove1_other)
  have "execute_tasks (t # rest) c_sum L I off sched tasks
          = Inr (sched @ (ex # execs), filter (\<lambda>t. \<not> P t) tasks)"
    using assms(1) mem run same by (simp add: Let_def ex_def)
  moreover have "map (\<lambda>e. (e_nr e, e_work e)) (ex # execs)
                   = map (\<lambda>t. (t_nr t, t_c t / c_sum * L * I)) (t # rest)"
    using works by (simp add: ex_def e_work_def)
  ultimately show ?case by blast
qed

lemma cut_all_ok:
  assumes "\<forall>t\<in>set ts. t_release t < t_dead t \<and> \<not> contained s e t"
  shows "\<exists>ts'. cut_all ts s e = Inr ts' \<and> list_all2 (\<lambda>t t'. cut t s e = Inr t') ts ts'"
  using assms
proof (induction ts)
  case Nil show ?case by simp
next
  case (Cons t ts)
  have "cut t s e \<noteq> Inl Uncatched" using Cons.prems by (simp add: cut_fault_iff_contained)
  then obtain t' where t': "cut t s e = Inr t'"
    by (cases "cut t s e") (auto dest: cut_error_is_fault)
  from Cons obtain ts' where "cut_all ts s e = Inr ts'" "list_all2 (\<lambda>t t'. cut t s e = Inr t') ts ts'"
    by auto
  with t' show ?case by simp
qed

lemma cut_list_valid:
  assumes "list_all2 (\<lambda>t t'. cut t s e = Inr t') ts ts'" and "valid_input ts"
  shows "valid_input ts'"
  using assms
  by (induction rule: list_all2_induct) (auto simp: valid_input_def dest: cut_keeps_window cut_keeps_nr_c)

lemma cut_list_nr_c:
  assumes "list_all2 (\<lambda>t t'. cut t s e = Inr t') ts ts'"
  shows "map (\<lambda>t. (t_nr t, t_c t)) ts' = map (\<lambda>t. (t_nr t, t_c t)) ts"
  using assms by (induction rule: list_all2_induct) (auto dest: cut_keeps_nr_c)

lemma sum_list_pos_nonempty:
  fixes f :: "'a \<Rightarrow> rat"
  assumes "xs \<noteq> []" and "\<forall>x\<in>set xs. 0 < f x"
  shows "0 < sum_list (map f xs)"
proof -
  obtain x rest where xs: "xs = x # rest" using assms(1) by (cases xs) auto
  have "0 \<le> sum_list (map f rest)"
    using assms(2) xs by (intro sum_list_nonneg) (auto intro: less_imp_le)
  moreover have "0 < f x" using assms(2) xs by simp
  ultimately show ?thesis using xs by (simp add: add_pos_nonneg)
qed

lemma sum_list_sort_key: 
  fixes f :: "'a \<Rightarrow> rat"
  shows "sum_list (map f (sort_key k xs)) = sum_list (map f xs)"
proof -
  have "mset (map f (sort_key k xs)) = mset (map f xs)" by simp
  then show ?thesis by (metis sum_mset_sum_list)
qed


lemma calc_step_ok:
  assumes so: "set_iteration so" and valid: "valid_input tasks" and ne: "tasks \<noteq> []"
  shows "\<exists>ivs mi execs tasks'.
           get_intervals so tasks = Inr ivs \<and> ivs \<noteq> [] \<and>
           max_intensity_interval ivs = Inr mi \<and> i_tasks mi \<noteq> [] \<and>
           calc_step so tasks sched = Inr (tasks', sched @ execs) \<and>
           valid_input tasks' \<and> length tasks' < length tasks \<and>
           mset (map (\<lambda>t. (t_nr t, t_c t)) tasks)
             = mset (map (\<lambda>e. (e_nr e, e_work e)) execs) + mset (map (\<lambda>t. (t_nr t, t_c t)) tasks')"
proof -
  have all: "\<forall>t\<in>set tasks. t_release t < t_dead t \<and> 0 < t_c t"
    using valid by (simp add: valid_input_def list_all_iff)
  obtain t where t: "t \<in> set tasks" using ne by (cases tasks) auto
  then have tw: "t_release t < t_dead t" using all by blast
  define triv where "triv = interval_of tasks (t_release t) (t_dead t)"
  obtain ivs where gi: "get_intervals so tasks = Inr ivs" and triv: "triv \<in> set ivs"
    using get_intervals_trivial [OF so t t tw] unfolding triv_def by blast
  then have ivs: "ivs \<noteq> []" by auto
  obtain mi where mi: "max_intensity_interval ivs = Inr mi" and mi_in: "mi \<in> set ivs"
    and mi_max: "\<forall>x\<in>set ivs. i_intensity x \<le> i_intensity mi"
    using max_intensity_interval_ok [OF ivs] by blast
  have "filter (contained (t_release t) (t_dead t)) tasks \<noteq> []"
    using t by (auto simp: filter_empty_conv contained_def)
  then have "0 < sum_list (map t_c (filter (contained (t_release t) (t_dead t)) tasks))"
    using all by (intro sum_list_pos_nonempty) auto
  then have "0 < i_intensity triv" using tw by (simp add: triv_def interval_of_def)
  then have pos: "0 < i_intensity mi" using mi_max triv by force
  obtain s e where se: "s < e" and mi_eq: "mi = interval_of tasks s e"
    using get_intervals_shape [OF gi mi_in] by blast
  define inside where "inside = filter (contained s e) tasks"
  define total where "total = sum_list (map t_c inside)"
  have mi_tasks: "i_tasks mi = inside" and mi_s: "i_start mi = s" and mi_e: "i_end mi = e"
    and mi_int: "i_intensity mi = total / (e - s)"
    by (simp_all add: mi_eq interval_of_def inside_def total_def)
  have total: "0 < total" using pos se by (simp add: mi_int zero_less_divide_iff)
  then have inside_ne: "inside \<noteq> []" by (auto simp: total_def)
  have c_sum: "sum_list (map t_c (sort_key t_dead inside)) = total"
    by (simp add: total_def sum_list_sort_key)
  have "mset (sort_key t_dead inside) = mset (filter (contained s e) tasks)"
    by (simp add: inside_def)
  from execute_tasks_ok [OF _ this, of total "e - s" "total / (e - s)" s sched] total
  obtain execs where
    run: "execute_tasks (sort_key t_dead inside) total (e - s) (total / (e - s)) s sched tasks
            = Inr (sched @ execs, filter (\<lambda>t. \<not> contained s e t) tasks)"
    and works: "map (\<lambda>e. (e_nr e, e_work e)) execs
                  = map (\<lambda>t. (t_nr t, t_c t / total * (e - s) * (total / (e - s)))) (sort_key t_dead inside)"
    by auto
  define outside where "outside = filter (\<lambda>t. \<not> contained s e t) tasks"
  have "\<forall>t\<in>set outside. t_release t < t_dead t \<and> \<not> contained s e t"
    using all by (simp add: outside_def)
  from cut_all_ok [OF this] obtain tasks' where
    ca: "cut_all outside s e = Inr tasks'" and rel: "list_all2 (\<lambda>t t'. cut t s e = Inr t') outside tasks'"
    by blast
  have step: "calc_step so tasks sched = Inr (tasks', sched @ execs)"
    using gi mi run ca by (simp add: calc_step_def mi_tasks mi_s mi_e mi_int c_sum outside_def Let_def)
  have "valid_input outside" using valid by (simp add: valid_input_def outside_def list_all_iff)
  then have v': "valid_input tasks'" using cut_list_valid [OF rel] by simp
  have "length tasks' = length outside" using rel by (simp add: list_all2_lengthD)
  moreover have "length inside + length outside = length tasks"
    unfolding inside_def outside_def by (rule sum_length_filter_compl)
  ultimately have len: "length tasks' < length tasks" using inside_ne by (cases inside) auto
  have "\<And>c::rat. c / total * (e - s) * (total / (e - s)) = c" using total se by simp
  then have "map (\<lambda>e. (e_nr e, e_work e)) execs = map (\<lambda>t. (t_nr t, t_c t)) (sort_key t_dead inside)"
    using works by simp
  then have "mset (map (\<lambda>e. (e_nr e, e_work e)) execs) = mset (map (\<lambda>t. (t_nr t, t_c t)) inside)"
    by simp
  moreover have "mset (map (\<lambda>t. (t_nr t, t_c t)) tasks') = mset (map (\<lambda>t. (t_nr t, t_c t)) outside)"
    using cut_list_nr_c [OF rel] by simp
  moreover have "mset tasks = mset inside + mset outside"
    unfolding inside_def outside_def by (simp add: mset_filter)
  then have "mset (map (\<lambda>t. (t_nr t, t_c t)) tasks)
      = mset (map (\<lambda>t. (t_nr t, t_c t)) inside) + mset (map (\<lambda>t. (t_nr t, t_c t)) outside)"
    unfolding mset_map by (simp only: image_mset_union)
  ultimately have ms: "mset (map (\<lambda>t. (t_nr t, t_c t)) tasks)
             = mset (map (\<lambda>e. (e_nr e, e_work e)) execs) + mset (map (\<lambda>t. (t_nr t, t_c t)) tasks')"
    by simp
  show ?thesis using gi ivs mi inside_ne step v' len ms unfolding mi_tasks [symmetric] by blast
qed

lemma calc_loop_ok:
  assumes "set_iteration so" and "valid_input tasks"
  shows "\<exists>execs. calc_loop so tasks sched = Some (Inr (sort_key e_start (sched @ execs))) \<and>
           mset (map (\<lambda>e. (e_nr e, e_work e)) execs) = mset (map (\<lambda>t. (t_nr t, t_c t)) tasks)"
  using assms(2)
proof (induction "length tasks" arbitrary: tasks sched rule: less_induct)
  case less
  show ?case
  proof (cases "tasks = []")
    case True
    then have "calc_loop so tasks sched = Some (Inr (sort_key e_start (sched @ [])))"
      by (subst calc_loop.simps) simp
    then show ?thesis using True by fastforce
  next
    case False
    from calc_step_ok [OF assms(1) less.prems False, of sched]
    obtain execs tasks' where step: "calc_step so tasks sched = Inr (tasks', sched @ execs)"
      and v': "valid_input tasks'" and len: "length tasks' < length tasks"
      and ms: "mset (map (\<lambda>t. (t_nr t, t_c t)) tasks)
             = mset (map (\<lambda>e. (e_nr e, e_work e)) execs) + mset (map (\<lambda>t. (t_nr t, t_c t)) tasks')"
      by blast
    from less.hyps [OF len v', of "sched @ execs"]
    obtain execs' where rest: "calc_loop so tasks' (sched @ execs)
          = Some (Inr (sort_key e_start ((sched @ execs) @ execs')))"
      and ms': "mset (map (\<lambda>e. (e_nr e, e_work e)) execs') = mset (map (\<lambda>t. (t_nr t, t_c t)) tasks')"
      by blast
    have "calc_loop so tasks sched = Some (Inr (sort_key e_start (sched @ (execs @ execs'))))"
      using False step rest by (subst calc_loop.simps) simp
    moreover have "mset (map (\<lambda>e. (e_nr e, e_work e)) (execs @ execs')) = mset (map (\<lambda>t. (t_nr t, t_c t)) tasks)"
      using ms ms' by simp
    ultimately show ?thesis by blast
  qed
qed

section \<open>Properties of \<open>calc_scheduling\<close>\<close>

text \<open>
  C10.  On the empty task list the loop body is not entered and the result is the empty
  schedule.
\<close>

theorem calc_scheduling_empty: "calc_scheduling set_iter [] = Some (Inr [])"
  unfolding calc_scheduling_def by (subst calc_loop.simps) simp

text \<open>
  C2.  On a valid input \<open>calc_scheduling\<close> returns a schedule in which the executions,
  taken as pairs of identifier and work \<open>(end - start) * frequency\<close>, are exactly the
  input tasks taken as pairs of identifier and workload \<open>c\<close>: each task's execution
  performs that task's workload, in exact arithmetic.
\<close>

theorem work_conserved:
  assumes "set_iteration set_iter" and "valid_input tasks"
  shows "\<exists>sched. calc_scheduling set_iter tasks = Some (Inr sched) \<and>
           mset (map (\<lambda>e. (e_nr e, (e_end e - e_start e) * e_frequency e)) sched)
             = mset (map (\<lambda>t. (t_nr t, t_c t)) tasks)"
proof -
  obtain execs where run: "calc_loop set_iter tasks [] = Some (Inr (sort_key e_start ([] @ execs)))"
    and ms: "mset (map (\<lambda>e. (e_nr e, e_work e)) execs) = mset (map (\<lambda>t. (t_nr t, t_c t)) tasks)"
    using calc_loop_ok [OF assms, of "[]"] by blast
  have "mset (map (\<lambda>e. (e_nr e, e_work e)) (sort_key e_start execs))
          = mset (map (\<lambda>e. (e_nr e, e_work e)) execs)"
    by simp
  then show ?thesis using run ms by (simp add: calc_scheduling_def e_work_def [abs_def])
qed

theorem work_conserved_witness:
  "set_iteration remdups \<and> valid_input [Task ''A'' 0 10 5, Task ''B'' 0 10 5] \<and>
   (\<exists>sched. calc_scheduling remdups [Task ''A'' 0 10 5, Task ''B'' 0 10 5] = Some (Inr sched) \<and>
      mset (map (\<lambda>e. (e_nr e, (e_end e - e_start e) * e_frequency e)) sched)
        = mset (map (\<lambda>t. (t_nr t, t_c t)) [Task ''A'' 0 10 5, Task ''B'' 0 10 5]))"
proof -
  have h1: "set_iteration remdups" by (simp add: set_iteration_def)
  have h2: "valid_input [Task ''A'' 0 10 5, Task ''B'' 0 10 5]"
    by (simp add: valid_input_def Task_def)
  show ?thesis using work_conserved [OF h1 h2] h1 h2 by blast
qed

text \<open>
  C5.  On a valid input the run of \<open>calc_scheduling\<close> ends, and not with the exception
  of the last line of \<open>Task.cut\<close>.  For a task of a valid input that line is reached
  exactly when the task is contained in the interval it is cut by; the pass of the loop
  removes the contained tasks before it cuts the others.
\<close>

theorem cut_fault_unreachable:
  assumes "set_iteration set_iter" and "valid_input tasks"
  shows "(\<exists>r. calc_scheduling set_iter tasks = Some r \<and> r \<noteq> Inl Uncatched) \<and>
         (\<forall>t\<in>set tasks. \<forall>s e. cut t s e = Inl Uncatched \<longleftrightarrow> contained s e t)"
proof -
  obtain execs where "calc_loop set_iter tasks [] = Some (Inr (sort_key e_start ([] @ execs)))"
    using calc_loop_ok [OF assms, of "[]"] by blast
  then have "\<exists>r. calc_scheduling set_iter tasks = Some r \<and> r \<noteq> Inl Uncatched"
    by (simp add: calc_scheduling_def)
  moreover have "\<forall>t\<in>set tasks. \<forall>s e. cut t s e = Inl Uncatched \<longleftrightarrow> contained s e t"
    using assms(2) by (simp add: valid_input_def list_all_iff cut_fault_iff_contained)
  ultimately show ?thesis by blast
qed

theorem cut_fault_unreachable_witness:
  "set_iteration remdups \<and>
   valid_input [Task ''C'' 0 20 4, Task ''D'' 5 10 10] \<and>
   (\<exists>r. calc_scheduling remdups [Task ''C'' 0 20 4, Task ''D'' 5 10 10] = Some r \<and>
        r \<noteq> Inl Uncatched) \<and>
   contained 5 10 (Task ''D'' 5 10 10) \<and>
   cut (Task ''D'' 5 10 10) 5 10 = Inl Uncatched"
proof -
  have h1: "set_iteration remdups" by (simp add: set_iteration_def)
  have h2: "valid_input [Task ''C'' 0 20 4, Task ''D'' 5 10 10]"
    by (simp add: valid_input_def Task_def)
  have h3: "contained 5 10 (Task ''D'' 5 10 10)" by (simp add: contained_def Task_def)
  have h4: "Task ''D'' 5 10 10 \<in> set [Task ''C'' 0 20 4, Task ''D'' 5 10 10]" by simp
  show ?thesis using cut_fault_unreachable [OF h1 h2] h1 h2 h3 h4 by blast
qed

text \<open>
  C6.  On a valid input \<open>calc_scheduling\<close> returns a schedule.  In each pass, that is
  for every non-empty valid working list: \<open>get_intervals\<close> returns a non-empty list,
  which holds the interval \<open>[release, dead)\<close> of every task; the interval that
  \<open>max_intensity_interval\<close> selects contains at least one task; and the pass leaves a
  strictly shorter working list, which is valid again.
\<close>

theorem calc_scheduling_terminates:
  assumes "set_iteration set_iter" and "valid_input tasks"
  shows "(\<exists>sched. calc_scheduling set_iter tasks = Some (Inr sched)) \<and>
         (tasks \<noteq> [] \<longrightarrow>
            (\<exists>ivs mi tasks' scheduling'.
               get_intervals set_iter tasks = Inr ivs \<and> ivs \<noteq> [] \<and>
               (\<forall>t\<in>set tasks. interval_of tasks (t_release t) (t_dead t) \<in> set ivs) \<and>
               max_intensity_interval ivs = Inr mi \<and> i_tasks mi \<noteq> [] \<and>
               calc_step set_iter tasks scheduling = Inr (tasks', scheduling') \<and>
               length tasks' < length tasks \<and> valid_input tasks'))"
proof -
  obtain execs where "calc_loop set_iter tasks [] = Some (Inr (sort_key e_start ([] @ execs)))"
    using calc_loop_ok [OF assms, of "[]"] by blast
  then have ret: "\<exists>sched. calc_scheduling set_iter tasks = Some (Inr sched)"
    by (simp add: calc_scheduling_def)
  have pass: "\<exists>ivs mi tasks' scheduling'.
               get_intervals set_iter tasks = Inr ivs \<and> ivs \<noteq> [] \<and>
               (\<forall>t\<in>set tasks. interval_of tasks (t_release t) (t_dead t) \<in> set ivs) \<and>
               max_intensity_interval ivs = Inr mi \<and> i_tasks mi \<noteq> [] \<and>
               calc_step set_iter tasks scheduling = Inr (tasks', scheduling') \<and>
               length tasks' < length tasks \<and> valid_input tasks'"
    if ne: "tasks \<noteq> []"
  proof -
    obtain ivs mi execs tasks' where gi: "get_intervals set_iter tasks = Inr ivs"
      and rest: "ivs \<noteq> []" "max_intensity_interval ivs = Inr mi" "i_tasks mi \<noteq> []"
        "calc_step set_iter tasks scheduling = Inr (tasks', scheduling @ execs)"
        "valid_input tasks'" "length tasks' < length tasks"
      using calc_step_ok [OF assms ne, of scheduling] by blast
    have "interval_of tasks (t_release t) (t_dead t) \<in> set ivs" if t: "t \<in> set tasks" for t
    proof -
      have "t_release t < t_dead t" using assms(2) t by (simp add: valid_input_def list_all_iff)
      from get_intervals_trivial [OF assms(1) t t this] gi show ?thesis by simp
    qed
    then show ?thesis using gi rest by blast
  qed
  show ?thesis using ret pass by blast
qed

theorem calc_scheduling_terminates_witness:
  "set_iteration remdups \<and> valid_input [Task ''A'' 0 10 5] \<and> [Task ''A'' 0 10 5] \<noteq> [] \<and>
   (\<exists>sched. calc_scheduling remdups [Task ''A'' 0 10 5] = Some (Inr sched)) \<and>
   (\<exists>ivs mi tasks' scheduling'.
      get_intervals remdups [Task ''A'' 0 10 5] = Inr ivs \<and> ivs \<noteq> [] \<and>
      (\<forall>t\<in>set [Task ''A'' 0 10 5].
          interval_of [Task ''A'' 0 10 5] (t_release t) (t_dead t) \<in> set ivs) \<and>
      max_intensity_interval ivs = Inr mi \<and> i_tasks mi \<noteq> [] \<and>
      calc_step remdups [Task ''A'' 0 10 5] [] = Inr (tasks', scheduling') \<and>
      length tasks' < length [Task ''A'' 0 10 5] \<and> valid_input tasks')"
proof -
  have h1: "set_iteration remdups" by (simp add: set_iteration_def)
  have h2: "valid_input [Task ''A'' 0 10 5]" by (simp add: valid_input_def Task_def)
  have h3: "[Task ''A'' 0 10 5] \<noteq> []" by simp
  show ?thesis
    using calc_scheduling_terminates [OF h1 h2, of "[]"] h1 h2 h3 by blast
qed

text \<open>
  C7.  On a valid input \<open>calc_scheduling\<close> returns a schedule whose identifiers are,
  counted with multiplicity, those of the input tasks: every task has one execution, none
  has two and none is missing.
\<close>

theorem each_task_scheduled_once:
  assumes "set_iteration set_iter" and "valid_input tasks"
  shows "\<exists>sched. calc_scheduling set_iter tasks = Some (Inr sched) \<and>
           mset (map e_nr sched) = mset (map t_nr tasks) \<and> length sched = length tasks"
proof -
  obtain execs where run: "calc_loop set_iter tasks [] = Some (Inr (sort_key e_start ([] @ execs)))"
    and ms: "mset (map (\<lambda>e. (e_nr e, e_work e)) execs) = mset (map (\<lambda>t. (t_nr t, t_c t)) tasks)"
    using calc_loop_ok [OF assms, of "[]"] by blast
  have "image_mset fst (mset (map (\<lambda>e. (e_nr e, e_work e)) execs))
          = image_mset fst (mset (map (\<lambda>t. (t_nr t, t_c t)) tasks))"
    by (simp only: ms)
  then have nrs: "mset (map e_nr execs) = mset (map t_nr tasks)"
    by (simp add: image_mset.compositionality comp_def)
  then have "size (mset (map e_nr execs)) = size (mset (map t_nr tasks))" by simp
  then have len: "length execs = length tasks" by simp
  have "mset (map e_nr (sort_key e_start execs)) = mset (map e_nr execs)" by simp
  then show ?thesis using run nrs len by (simp add: calc_scheduling_def)
qed

theorem each_task_scheduled_once_witness:
  "set_iteration remdups \<and> valid_input [Task ''A'' 0 10 5, Task ''B'' 5 8 1] \<and>
   (\<exists>sched. calc_scheduling remdups [Task ''A'' 0 10 5, Task ''B'' 5 8 1] = Some (Inr sched) \<and>
      mset (map e_nr sched) = mset (map t_nr [Task ''A'' 0 10 5, Task ''B'' 5 8 1]) \<and>
      length sched = length [Task ''A'' 0 10 5, Task ''B'' 5 8 1])"
proof -
  have h1: "set_iteration remdups" by (simp add: set_iteration_def)
  have h2: "valid_input [Task ''A'' 0 10 5, Task ''B'' 5 8 1]"
    by (simp add: valid_input_def Task_def)
  show ?thesis using each_task_scheduled_once [OF h1 h2] h1 h2 by blast
qed

text \<open>
  C8.  On a valid input \<open>calc_scheduling\<close> returns a schedule whose executions are in
  ascending order of \<open>start\<close>.
\<close>

theorem schedule_sorted_by_start:
  assumes "set_iteration set_iter" and "valid_input tasks"
  shows "\<exists>sched. calc_scheduling set_iter tasks = Some (Inr sched) \<and>
           sorted (map e_start sched)"
proof -
  obtain execs where "calc_loop set_iter tasks [] = Some (Inr (sort_key e_start ([] @ execs)))"
    using calc_loop_ok [OF assms, of "[]"] by blast
  then show ?thesis by (simp add: calc_scheduling_def)
qed

theorem schedule_sorted_by_start_witness:
  "set_iteration remdups \<and> valid_input [Task ''D'' 5 10 10, Task ''C'' 0 20 4] \<and>
   (\<exists>sched. calc_scheduling remdups [Task ''D'' 5 10 10, Task ''C'' 0 20 4] = Some (Inr sched) \<and>
      sorted (map e_start sched))"
proof -
  have h1: "set_iteration remdups" by (simp add: set_iteration_def)
  have h2: "valid_input [Task ''D'' 5 10 10, Task ''C'' 0 20 4]"
    by (simp add: valid_input_def Task_def)
  show ?thesis using schedule_sorted_by_start [OF h1 h2] h1 h2 by blast
qed

section \<open>Inputs on which the code departs from the specification\<close>

lemma two_element_orders:
  assumes "distinct xs" and "set xs = {a, b}" and "a \<noteq> b"
  shows "xs = [a, b] \<or> xs = [b, a]"
proof -
  have "length xs = 2" using assms by (metis card_2_iff distinct_card)
  then obtain x y where xs: "xs = [x, y]"
    by (metis (no_types, opaque_lifting) One_nat_def Suc_1 length_0_conv length_Suc_conv)
  then show ?thesis using assms by (auto simp: doubleton_eq_iff)
qed

lemma set_iteration_pair:
  assumes "set_iteration so" and "a \<noteq> b"
  shows "so [a, b] = [a, b] \<or> so [a, b] = [b, a]"
  using assms two_element_orders [of "so [a, b]" a b] by (simp add: set_iteration_def)

text \<open>
  C1.  The valid input \<open>A = (0, 10, 5)\<close>, \<open>B = (5, 8, 1)\<close> has one interval of maximum
  intensity, \<open>[0, 10)\<close> with intensity \<open>3/5\<close>, whatever the iteration order of the two
  sets.  Both tasks are placed in it in deadline order from its start, so \<open>B\<close>, released
  at 5 and due at 8, runs in \<open>[0, 5/3)\<close>: its execution ends before its release.
\<close>

theorem execution_before_release:
  assumes "set_iteration set_iter"
  shows "valid_input [Task ''A'' 0 10 5, Task ''B'' 5 8 1] \<and>
    calc_scheduling set_iter [Task ''A'' 0 10 5, Task ''B'' 5 8 1]
    = Some (Inr [\<lparr>e_nr = ''B'', e_start = 0, e_end = 5 / 3, e_frequency = 3 / 5\<rparr>,
                 \<lparr>e_nr = ''A'', e_start = 5 / 3, e_end = 10, e_frequency = 3 / 5\<rparr>])"
proof -
  have valid: "valid_input [Task ''A'' 0 10 5, Task ''B'' 5 8 1]"
    by (simp add: valid_input_def Task_def)
  have r: "set_iter [0, 5] = [0, 5] \<or> set_iter [0, 5] = [5, 0]"
    using set_iteration_pair [OF assms, of 0 5] by simp
  have d: "set_iter [10, 8] = [10, 8] \<or> set_iter [10, 8] = [8, 10]"
    using set_iteration_pair [OF assms, of 10 8] by simp
  have step: "calc_step set_iter [Task ''A'' 0 10 5, Task ''B'' 5 8 1] []
    = Inr ([], [\<lparr>e_nr = ''B'', e_start = 0, e_end = 5 / 3, e_frequency = 3 / 5\<rparr>,
                 \<lparr>e_nr = ''A'', e_start = 5 / 3, e_end = 10, e_frequency = 3 / 5\<rparr>])"
    using r d by (auto simp: calc_step_def get_intervals_def Interval_def Task_def Let_def)
  have "calc_loop set_iter [Task ''A'' 0 10 5, Task ''B'' 5 8 1] []
    = Some (Inr [\<lparr>e_nr = ''B'', e_start = 0, e_end = 5 / 3, e_frequency = 3 / 5\<rparr>,
                 \<lparr>e_nr = ''A'', e_start = 5 / 3, e_end = 10, e_frequency = 3 / 5\<rparr>])"
    by (subst calc_loop.simps, simp add: step, subst calc_loop.simps, simp)
  then show ?thesis using valid by (simp only: calc_scheduling_def simp_thms)
qed

theorem execution_before_release_witness:
  "set_iteration remdups \<and>
   valid_input [Task ''A'' 0 10 5, Task ''B'' 5 8 1] \<and>
   calc_scheduling remdups [Task ''A'' 0 10 5, Task ''B'' 5 8 1]
     = Some (Inr [\<lparr>e_nr = ''B'', e_start = 0, e_end = 5 / 3, e_frequency = 3 / 5\<rparr>,
                  \<lparr>e_nr = ''A'', e_start = 5 / 3, e_end = 10, e_frequency = 3 / 5\<rparr>]) \<and>
   \<not> t_release (Task ''B'' 5 8 1) \<le> (0::rat)"
proof -
  have h1: "set_iteration remdups" by (simp add: set_iteration_def)
  have h2: "valid_input [Task ''A'' 0 10 5, Task ''B'' 5 8 1]"
    by (simp add: valid_input_def Task_def)
  have h3: "\<not> t_release (Task ''B'' 5 8 1) \<le> (0::rat)" by (simp add: Task_def)
  show ?thesis using execution_before_release [OF h1] h1 h2 h3 by blast
qed

lemma set_iteration_single:
  assumes "set_iteration set_iter"
  shows "set_iter [a] = [a]"
proof -
  have d: "distinct (set_iter [a])" and s: "set (set_iter [a]) = {a}"
    using assms by (simp_all add: set_iteration_def)
  show ?thesis
  proof (cases "set_iter [a]")
    case Nil
    then show ?thesis using s by simp
  next
    case (Cons x xs)
    have "x = a" using s Cons by auto
    moreover have "xs = []"
    proof (cases xs)
      case Nil then show ?thesis .
    next
      case (Cons y ys)
      then have "y = a" using s \<open>set_iter [a] = x # xs\<close> by auto
      then show ?thesis using d \<open>set_iter [a] = x # xs\<close> \<open>x = a\<close> Cons by simp
    qed
    ultimately show ?thesis using Cons by simp
  qed
qed

lemma single_task_step:
  assumes "set_iteration set_iter" and "t_release t < t_dead t"
  shows "calc_step set_iter [t] [] =
     (if t_c t = 0 then Inl ZeroDivisionError
      else Inr ([], [\<lparr>e_nr = t_nr t, e_start = t_release t + t_offset t,
                       e_end = t_dead t + t_offset t,
                       e_frequency = t_c t / (t_dead t - t_release t)\<rparr>]))"
  using assms(2)
  by (simp add: calc_step_def get_intervals_def Interval_def Let_def
      set_iteration_single [OF assms(1)])

lemma no_candidate_step:
  assumes "set_iteration set_iter"
    and "\<forall>t\<in>set tasks. \<forall>u\<in>set tasks. t_dead u \<le> t_release t"
  shows "calc_step set_iter tasks [] = Inl MaxEmptyError"
proof -
  have "\<forall>s\<in>set (set_iter (map t_release tasks)). \<forall>e\<in>set (set_iter (map t_dead tasks)). \<not> s < e"
    using assms by (auto simp: set_iteration_def not_less)
  then have "get_intervals set_iter tasks = Inr []"
    unfolding get_intervals_eq by (auto simp: filter_empty_conv)
  then show ?thesis by (simp add: calc_step_def)
qed

text \<open>
  C3, as the claim states it, fails in both halves: nothing in the module inspects a
  task before scheduling it.  A single task with a negative workload is scheduled like
  any other, at a negative frequency; and a task with \<open>release = dead\<close> beside a valid
  task is scheduled with it.  In both inputs the interval of maximum intensity is
  unique, so the iteration order of the sets plays no part.
\<close>

theorem invalid_task_scheduled:
  "t_c (Task ''A'' 0 10 (- 5)) \<le> 0 \<and>
   calc_scheduling remdups [Task ''A'' 0 10 (- 5)]
     = Some (Inr [\<lparr>e_nr = ''A'', e_start = 0, e_end = 10, e_frequency = - (1 / 2)\<rparr>]) \<and>
   t_dead (Task ''B'' 7 7 1) \<le> t_release (Task ''B'' 7 7 1) \<and>
   calc_scheduling remdups [Task ''A'' 0 10 5, Task ''B'' 7 7 1]
     = Some (Inr [\<lparr>e_nr = ''B'', e_start = 0, e_end = 5 / 3, e_frequency = 3 / 5\<rparr>,
                  \<lparr>e_nr = ''A'', e_start = 5 / 3, e_end = 10, e_frequency = 3 / 5\<rparr>])"
proof -
  have step: "calc_step remdups [Task ''A'' 0 10 (- 5)] []
     = Inr ([], [\<lparr>e_nr = ''A'', e_start = 0, e_end = 10, e_frequency = - (1 / 2)\<rparr>])"
    by (simp add: calc_step_def get_intervals_def Interval_def Task_def Let_def)
  have neg: "calc_scheduling remdups [Task ''A'' 0 10 (- 5)]
     = Some (Inr [\<lparr>e_nr = ''A'', e_start = 0, e_end = 10, e_frequency = - (1 / 2)\<rparr>])"
    unfolding calc_scheduling_def
    by (subst calc_loop.simps, simp add: step, subst calc_loop.simps, simp)
  have step2: "calc_step remdups [Task ''A'' 0 10 5, Task ''B'' 7 7 1] []
     = Inr ([], [\<lparr>e_nr = ''B'', e_start = 0, e_end = 5 / 3, e_frequency = 3 / 5\<rparr>,
                 \<lparr>e_nr = ''A'', e_start = 5 / 3, e_end = 10, e_frequency = 3 / 5\<rparr>])"
    by (simp add: calc_step_def get_intervals_def Interval_def Task_def Let_def)
  have deg: "calc_scheduling remdups [Task ''A'' 0 10 5, Task ''B'' 7 7 1]
     = Some (Inr [\<lparr>e_nr = ''B'', e_start = 0, e_end = 5 / 3, e_frequency = 3 / 5\<rparr>,
                  \<lparr>e_nr = ''A'', e_start = 5 / 3, e_end = 10, e_frequency = 3 / 5\<rparr>])"
    unfolding calc_scheduling_def
    by (subst calc_loop.simps, simp add: step2, subst calc_loop.simps, simp)
  show ?thesis using neg deg by (simp add: Task_def)
qed

text \<open>
  C3, amended.  There is no validation and no error of its own for an invalid task.
  What the code does on the inputs below, for every iteration order of the sets:
  a non-empty list in which no release lies before any deadline (a single task with
  \<open>release \<ge> dead\<close> is one) is rejected in the first pass, \<open>max\<close> raising on the empty
  list of candidates; a single task with \<open>release < dead\<close> and workload 0 is rejected in
  the first pass by the division by \<open>c_sum\<close>; in both cases the run ends in the error,
  with no schedule.  A single task with \<open>release < dead\<close> and any other workload, a
  negative one too, is scheduled as one execution over its whole window, shifted by its
  offset, at frequency \<open>c / (dead - release)\<close>.
\<close>

theorem unvalidated_input_outcomes:
  assumes "set_iteration set_iter"
  shows "(tasks \<noteq> [] \<and> (\<forall>t\<in>set tasks. \<forall>u\<in>set tasks. t_dead u \<le> t_release t) \<longrightarrow>
            calc_scheduling set_iter tasks = Some (Inl MaxEmptyError)) \<and>
         (t_release t < t_dead t \<and> t_c t = 0 \<longrightarrow>
            calc_scheduling set_iter [t] = Some (Inl ZeroDivisionError)) \<and>
         (t_release t < t_dead t \<and> t_c t \<noteq> 0 \<longrightarrow>
            calc_scheduling set_iter [t] =
              Some (Inr [\<lparr>e_nr = t_nr t, e_start = t_release t + t_offset t,
                          e_end = t_dead t + t_offset t,
                          e_frequency = t_c t / (t_dead t - t_release t)\<rparr>]))"
proof -
  have a: "calc_scheduling set_iter tasks = Some (Inl MaxEmptyError)"
    if "tasks \<noteq> []" and "\<forall>t\<in>set tasks. \<forall>u\<in>set tasks. t_dead u \<le> t_release t"
    unfolding calc_scheduling_def using that(1) no_candidate_step [OF assms that(2)]
    by (subst calc_loop.simps) simp
  have b: "calc_scheduling set_iter [t] = Some (Inl ZeroDivisionError)"
    if "t_release t < t_dead t" and "t_c t = 0"
    unfolding calc_scheduling_def using that(2) single_task_step [OF assms that(1)]
    by (subst calc_loop.simps) simp
  have c: "calc_scheduling set_iter [t] =
      Some (Inr [\<lparr>e_nr = t_nr t, e_start = t_release t + t_offset t,
                  e_end = t_dead t + t_offset t,
                  e_frequency = t_c t / (t_dead t - t_release t)\<rparr>])"
    if "t_release t < t_dead t" and "t_c t \<noteq> 0"
    unfolding calc_scheduling_def using that(2) single_task_step [OF assms that(1)]
    by (subst calc_loop.simps, simp, subst calc_loop.simps, simp)
  show ?thesis using a b c by blast
qed

theorem unvalidated_input_outcomes_witness:
  "set_iteration remdups \<and> [Task ''A'' 10 10 1] \<noteq> [] \<and>
   t_dead (Task ''A'' 10 10 1) \<le> t_release (Task ''A'' 10 10 1) \<and>
   calc_scheduling remdups [Task ''A'' 10 10 1] = Some (Inl MaxEmptyError) \<and>
   t_release (Task ''A'' 0 10 0) < t_dead (Task ''A'' 0 10 0) \<and>
   t_c (Task ''A'' 0 10 0) = 0 \<and>
   calc_scheduling remdups [Task ''A'' 0 10 0] = Some (Inl ZeroDivisionError) \<and>
   t_release (Task ''A'' 0 10 5) < t_dead (Task ''A'' 0 10 5) \<and>
   t_c (Task ''A'' 0 10 5) \<noteq> 0 \<and>
   calc_scheduling remdups [Task ''A'' 0 10 5] =
     Some (Inr [\<lparr>e_nr = ''A'', e_start = 0, e_end = 10, e_frequency = 1 / 2\<rparr>])"
proof -
  have h: "set_iteration remdups" by (simp add: set_iteration_def)
  have a1: "[Task ''A'' 10 10 1] \<noteq> []" by simp
  have a2: "t_dead (Task ''A'' 10 10 1) \<le> t_release (Task ''A'' 10 10 1)"
    by (simp add: Task_def)
  then have a3: "\<forall>t\<in>set [Task ''A'' 10 10 1]. \<forall>u\<in>set [Task ''A'' 10 10 1].
      t_dead u \<le> t_release t"
    by simp
  have b1: "t_release (Task ''A'' 0 10 0) < t_dead (Task ''A'' 0 10 0)"
    and b2: "t_c (Task ''A'' 0 10 0) = 0"
    by (simp_all add: Task_def)
  have c1: "t_release (Task ''A'' 0 10 5) < t_dead (Task ''A'' 0 10 5)"
    and c2: "t_c (Task ''A'' 0 10 5) \<noteq> 0"
    by (simp_all add: Task_def)
  have r1: "calc_scheduling remdups [Task ''A'' 10 10 1] = Some (Inl MaxEmptyError)"
    using unvalidated_input_outcomes [OF h, of "[Task ''A'' 10 10 1]"] a1 a3 by blast
  have r2: "calc_scheduling remdups [Task ''A'' 0 10 0] = Some (Inl ZeroDivisionError)"
    using unvalidated_input_outcomes [OF h, of _ "Task ''A'' 0 10 0"] b1 b2 by blast
  have "calc_scheduling remdups [Task ''A'' 0 10 5] =
      Some (Inr [\<lparr>e_nr = t_nr (Task ''A'' 0 10 5),
                  e_start = t_release (Task ''A'' 0 10 5) + t_offset (Task ''A'' 0 10 5),
                  e_end = t_dead (Task ''A'' 0 10 5) + t_offset (Task ''A'' 0 10 5),
                  e_frequency = t_c (Task ''A'' 0 10 5)
                     / (t_dead (Task ''A'' 0 10 5) - t_release (Task ''A'' 0 10 5))\<rparr>])"
    using unvalidated_input_outcomes [OF h, of _ "Task ''A'' 0 10 5"] c1 c2 by blast
  then have r3: "calc_scheduling remdups [Task ''A'' 0 10 5] =
      Some (Inr [\<lparr>e_nr = ''A'', e_start = 0, e_end = 10, e_frequency = 1 / 2\<rparr>])"
    by (simp add: Task_def)
  show ?thesis using h a1 a2 r1 b1 b2 r2 c1 c2 r3 by blast
qed

end
